theory Spec2Isabelle
  imports Main "HOL-Library.AList" "HOL-Library.Multiset" "HOL-Library.Sublist"
begin

section \<open>Data model\<close>

text \<open>
  The upload server stores every uploaded file in one directory. The directory is an
  association list from entry name to content, in the order in which the entries were
  created; a content is a list of bytes (a \<open>char\<close> is a byte).
\<close>

type_synonym bytes = string
type_synonym path = string
type_synonym directory = "(path \<times> bytes) list"

text \<open>A JavaScript \<open>Error\<close> with its message; \<open>toString\<close> is what a template literal prints.\<close>

datatype error = Error string

fun toString :: "error \<Rightarrow> string" where
  "toString (Error m) = ''Error: '' @ m"

text \<open>
  The readable stream of an upload: the chunks it delivers, in order, and then either its
  end (\<open>failure = None\<close>) or an \<open>'error'\<close> event (the client disconnected, the
  multipart body was malformed).
\<close>

record read_stream =
  chunks :: "bytes list"
  failure :: "error option"

text \<open>\<open>FileArgs\<close> of \<open>storeUpload.ts\<close>; a \<open>FileUpload\<close> has the same three fields and its stream.\<close>

record FileArgs =
  filename :: string
  mimetype :: string
  encoding :: string

record FileUpload = FileArgs +
  createReadStream :: read_stream

record Upload =
  upload_file :: FileUpload

text \<open>
  What the code takes from outside: \<open>shortId.generate\<close> (its \<open>k\<close>-th call returns
  \<open>generate k\<close>), the resolution of a name against \<open>UPLOAD_DIRECTORY_URL\<close> (the
  entry of the upload directory that \<open>new URL(name, UPLOAD_DIRECTORY_URL)\<close> denotes), and
  the faults of the storage layer: opening a target, writing the \<open>k\<close>-th chunk to a
  target, unlinking a target, reading the directory.
\<close>

record env =
  generate :: "nat \<Rightarrow> string"
  new_URL :: "string \<Rightarrow> path"
  open_fault :: "path \<Rightarrow> error option"
  write_fault :: "path \<Rightarrow> nat \<Rightarrow> error option"
  unlink_fault :: "path \<Rightarrow> error option"
  readdir_fault :: "error option"

text \<open>
  The state the code changes: the upload directory, the number of identifiers that
  \<open>shortId.generate\<close> has issued, and the lines written by \<open>console.error\<close>.
\<close>

record world =
  disk :: directory
  issued :: nat
  console :: "string list"

text \<open>The settled state of a promise, as \<open>Promise.allSettled\<close> reports it.\<close>

datatype settled = is_Fulfilled: Fulfilled (the_value: FileArgs) | is_Rejected: Rejected (the_reason: error)

section \<open>The storage primitives\<close>

definition content :: "directory \<Rightarrow> path \<Rightarrow> bytes" where
  "content d u = (case map_of d u of Some b \<Rightarrow> b | None \<Rightarrow> [])"

text \<open>\<open>createWriteStream\<close> opens the target with flag \<open>w\<close>: the file is created, or truncated.\<close>

definition createWriteStream :: "env \<Rightarrow> path \<Rightarrow> directory \<Rightarrow> error option \<times> directory" where
  "createWriteStream env u d =
     (case open_fault env u of
        Some e \<Rightarrow> (Some e, d)
      | None \<Rightarrow> (None, AList.update u [] d))"

definition write_chunk :: "path \<Rightarrow> bytes \<Rightarrow> directory \<Rightarrow> directory" where
  "write_chunk u c d = AList.update u (content d u @ c) d"

text \<open>
  \<open>unlink\<close> removes the entry; it fails when the storage layer refuses, and with
  \<open>ENOENT\<close> when there is no such entry.
\<close>

definition unlink :: "env \<Rightarrow> path \<Rightarrow> directory \<Rightarrow> error option \<times> directory" where
  "unlink env u d =
     (case unlink_fault env u of
        Some e \<Rightarrow> (Some e, d)
      | None \<Rightarrow>
          (if map_of d u = None then (Some (Error ''ENOENT''), d)
           else (None, AList.delete u d)))"

text \<open>
  \<open>stream.pipe(writeStream)\<close>: each chunk is written in order; a failed write makes the
  write stream emit \<open>'error'\<close>. When the chunks are exhausted the read stream either ends,
  and the write stream emits \<open>'finish'\<close>, or emits \<open>'error'\<close>, and the handler of line 43
  destroys the write stream with that same error.
\<close>

fun pipe :: "env \<Rightarrow> path \<Rightarrow> nat \<Rightarrow> bytes list \<Rightarrow> error option \<Rightarrow> directory
    \<Rightarrow> error option \<times> directory" where
  "pipe env u k [] fin d = (fin, d)"
| "pipe env u k (c # cs) fin d =
     (case write_fault env u k of
        Some e \<Rightarrow> (Some e, d)
      | None \<Rightarrow> pipe env u (Suc k) cs fin (write_chunk u c d))"

text \<open>
  The promise of lines 25 to 47. On \<open>'error'\<close> the target is unlinked and the promise is
  rejected from the callback of \<open>unlink\<close>, which ignores its own argument: the outcome of
  the deletion is dropped and the error of the write stream is the one passed to
  \<open>reject\<close>.
\<close>

definition on_error :: "env \<Rightarrow> path \<Rightarrow> error \<Rightarrow> directory \<Rightarrow> error option \<times> directory" where
  "on_error env u e d = (case unlink env u d of (_, d') \<Rightarrow> (Some e, d'))"

definition write_promise :: "env \<Rightarrow> path \<Rightarrow> read_stream \<Rightarrow> directory
    \<Rightarrow> error option \<times> directory" where
  "write_promise env u s d =
     (case createWriteStream env u d of
        (Some e, d1) \<Rightarrow> on_error env u e d1
      | (None, d1) \<Rightarrow>
          (case pipe env u 0 (chunks s) (failure s) d1 of
             (Some e, d2) \<Rightarrow> on_error env u e d2
           | (None, d2) \<Rightarrow> (None, d2)))"

section \<open>storeUpload\<close>

definition shortId_generate :: "env \<Rightarrow> world \<Rightarrow> string \<times> world" where
  "shortId_generate env w = (generate env (issued w), w\<lparr>issued := Suc (issued w)\<rparr>)"

text \<open>
  A call of \<open>storeUpload\<close> runs synchronously up to its \<open>await\<close> (lines 19 to 27 and the
  registration of the handlers): \<open>launch\<close>. What it has in hand then is the record it
  will return, the target and the stream.
\<close>

record Pending =
  stored :: FileArgs
  storedFileUrl :: path
  stream :: read_stream

definition launch :: "env \<Rightarrow> Upload \<Rightarrow> world \<Rightarrow> Pending \<times> world" where
  "launch env upload w =
     (let f = upload_file upload;
          (sid, w1) = shortId_generate env w;
          storedFileName = sid @ ''-'' @ filename f
      in (\<lparr>stored = \<lparr>filename = storedFileName, mimetype = mimetype f, encoding = encoding f\<rparr>,
           storedFileUrl = new_URL env storedFileName,
           stream = createReadStream f\<rparr>, w1))"

text \<open>
  \<open>complete\<close> is the rest of the call: the awaited promise settles and the function
  returns the record, or rejects with the error of the promise.
\<close>

definition complete :: "env \<Rightarrow> Pending \<Rightarrow> world \<Rightarrow> settled \<times> world" where
  "complete env p w =
     (case write_promise env (storedFileUrl p) (stream p) (disk w) of
        (Some e, d) \<Rightarrow> (Rejected e, w\<lparr>disk := d\<rparr>)
      | (None, d) \<Rightarrow> (Fulfilled (stored p), w\<lparr>disk := d\<rparr>))"

definition storeUpload :: "env \<Rightarrow> Upload \<Rightarrow> world \<Rightarrow> settled \<times> world" where
  "storeUpload env upload w = (case launch env upload w of (p, w1) \<Rightarrow> complete env p w1)"

text \<open>The target of a call: the entry its write stream is opened at.\<close>

definition target :: "env \<Rightarrow> Upload \<Rightarrow> world \<Rightarrow> path" where
  "target env upload w = new_URL env (generate env (issued w) @ ''-'' @ filename (upload_file upload))"

section \<open>multipleUpload\<close>

text \<open>
  The uploads of one request are stored concurrently on one thread: every call of
  \<open>storeUpload\<close> runs up to its \<open>await\<close> and is resumed when the promise it awaits
  settles. The order in which the promises settle is not the program's choice. It is a
  parameter here, the schedule: a list of handle indices, each occurrence meaning that the
  promise which that handle's task awaits settles now. An index that names no waiting task
  is skipped. The effect of one \<open>storeUpload\<close> on the directory is applied when its
  promise settles.

  The history of a run lists, in the order of the schedule, which handle reached its
  final state and how.
\<close>

type_synonym history = "(nat \<times> settled) list"

text \<open>
  What a run of \<open>multipleUpload\<close> leaves: the resolver's result (\<open>Inl\<close> when the
  resolver itself rejects), the history, the part of the schedule that had not been
  consumed when the resolver returned, and the world.
\<close>

record run =
  returned :: "error + FileArgs list"
  history :: history
  unconsumed :: "nat list"
  final :: world

definition console_error :: "string \<Rightarrow> world \<Rightarrow> world" where
  "console_error m w = w\<lparr>console := console w @ [m]\<rparr>"

definition failed_to_store :: "error \<Rightarrow> string" where
  "failed_to_store e = ''Failed to store upload: '' @ toString e"

subsection \<open>With Promise.allSettled (lines 11 to 22)\<close>

text \<open>\<open>files.map(storeUpload)\<close>: every call runs up to its \<open>await\<close>, in the order of the array.\<close>

fun launch_all :: "env \<Rightarrow> Upload list \<Rightarrow> world \<Rightarrow> Pending list \<times> world" where
  "launch_all env [] w = ([], w)"
| "launch_all env (upload # rest) w =
     (case launch env upload w of (p, w1) \<Rightarrow>
        (case launch_all env rest w1 of (ps, w2) \<Rightarrow> (p # ps, w2)))"

text \<open>The promise of handle \<open>i\<close> settles: its result goes to slot \<open>i\<close> of the array.\<close>

definition settle :: "env \<Rightarrow> Pending list \<Rightarrow> nat
    \<Rightarrow> settled option list \<times> history \<times> world \<Rightarrow> settled option list \<times> history \<times> world" where
  "settle env ps i st =
     (case st of (slots, hist, w) \<Rightarrow>
        if i < length slots \<and> i < length ps \<and> slots ! i = None
        then (case complete env (ps ! i) w of
                (r, w1) \<Rightarrow> (slots[i := Some r], hist @ [(i, r)], w1))
        else st)"

text \<open>
  \<open>Promise.allSettled\<close> resolves once every slot is filled, with the array of the results
  in the order of the input; it never rejects. The run does not return (\<open>None\<close>) when
  the schedule ends before that.
\<close>

fun allSettled :: "env \<Rightarrow> Pending list \<Rightarrow> nat list \<Rightarrow> settled option list \<times> history \<times> world
    \<Rightarrow> (settled list \<times> history \<times> nat list \<times> world) option" where
  "allSettled env ps [] (slots, hist, w) =
     (case those slots of
        Some results \<Rightarrow> Some (results, hist, [], w)
      | None \<Rightarrow> None)"
| "allSettled env ps (i # sched) (slots, hist, w) =
     (case those slots of
        Some results \<Rightarrow> Some (results, hist, i # sched, w)
      | None \<Rightarrow> allSettled env ps sched (settle env ps i (slots, hist, w)))"

text \<open>The loop of lines 15 to 19 over the array of results.\<close>

fun collect :: "settled list \<Rightarrow> FileArgs list \<Rightarrow> world \<Rightarrow> FileArgs list \<times> world" where
  "collect [] storedFileNames w = (storedFileNames, w)"
| "collect (Fulfilled v # results) storedFileNames w =
     collect results (storedFileNames @ [v]) w"
| "collect (Rejected reason # results) storedFileNames w =
     collect results storedFileNames (console_error (failed_to_store reason) w)"

definition multipleUpload_allSettled :: "env \<Rightarrow> Upload list \<Rightarrow> nat list \<Rightarrow> world \<Rightarrow> run option" where
  "multipleUpload_allSettled env files sched w =
     (case launch_all env files w of (ps, w1) \<Rightarrow>
        (case allSettled env ps sched (replicate (length ps) None, [], w1) of
           None \<Rightarrow> None
         | Some (results, hist, rest, w2) \<Rightarrow>
             (case collect results [] w2 of (storedFileNames, w3) \<Rightarrow>
                Some \<lparr>returned = Inr storedFileNames, history = hist, unconsumed = rest,
                      final = w3\<rparr>)))"

subsection \<open>With Promise.all over tasks that catch (lines 40 to 57)\<close>

text \<open>
  An element of \<open>filesProfiles\<close> carries the promise of its upload, which fulfils with the
  \<open>FileUpload\<close> or rejects.
\<close>

record UploadProfile =
  promise :: "error + FileUpload"

text \<open>
  A task of lines 45 to 53 awaits the upload, then awaits \<open>storeUpload\<close>, then is
  finished: its own promise is fulfilled (\<open>None\<close>) or rejected.
\<close>

datatype task = Awaiting "error + FileUpload" | Storing Pending | Finished "error option"

text \<open>
  The promise that task \<open>i\<close> awaits settles. A rejection, of the upload or of
  \<open>storeUpload\<close>, lands in the \<open>catch\<close> of line 49, and the task ends fulfilled.
\<close>

definition resume :: "env \<Rightarrow> nat \<Rightarrow> task list \<times> FileArgs list \<times> history \<times> world
    \<Rightarrow> task list \<times> FileArgs list \<times> history \<times> world" where
  "resume env i st =
     (case st of (tasks, storedFileNames, hist, w) \<Rightarrow>
        if i < length tasks then
          (case tasks ! i of
             Awaiting (Inl error) \<Rightarrow>
               (tasks[i := Finished None], storedFileNames, hist @ [(i, Rejected error)],
                console_error (failed_to_store error) w)
           | Awaiting (Inr f) \<Rightarrow>
               (case launch env \<lparr>upload_file = f\<rparr> w of
                  (p, w1) \<Rightarrow> (tasks[i := Storing p], storedFileNames, hist, w1))
           | Storing p \<Rightarrow>
               (case complete env p w of
                  (Fulfilled v, w1) \<Rightarrow>
                    (tasks[i := Finished None], storedFileNames @ [v],
                     hist @ [(i, Fulfilled v)], w1)
                | (Rejected error, w1) \<Rightarrow>
                    (tasks[i := Finished None], storedFileNames,
                     hist @ [(i, Rejected error)], console_error (failed_to_store error) w1))
           | Finished r \<Rightarrow> st)
        else st)"

text \<open>
  \<open>Promise.all\<close> rejects as soon as one of its promises is rejected, with that error, and
  resolves once all of them are fulfilled.
\<close>

fun rejection :: "task list \<Rightarrow> error option" where
  "rejection [] = None"
| "rejection (Finished (Some e) # tasks) = Some e"
| "rejection (t # tasks) = rejection tasks"

definition all_fulfilled :: "task list \<Rightarrow> bool" where
  "all_fulfilled tasks = list_all (\<lambda>t. t = Finished None) tasks"

fun Promise_all :: "env \<Rightarrow> nat list \<Rightarrow> task list \<times> FileArgs list \<times> history \<times> world
    \<Rightarrow> (error option \<times> FileArgs list \<times> history \<times> nat list \<times> world) option" where
  "Promise_all env [] (tasks, storedFileNames, hist, w) =
     (case rejection tasks of
        Some e \<Rightarrow> Some (Some e, storedFileNames, hist, [], w)
      | None \<Rightarrow>
          if all_fulfilled tasks then Some (None, storedFileNames, hist, [], w) else None)"
| "Promise_all env (i # sched) (tasks, storedFileNames, hist, w) =
     (case rejection tasks of
        Some e \<Rightarrow> Some (Some e, storedFileNames, hist, i # sched, w)
      | None \<Rightarrow>
          if all_fulfilled tasks then Some (None, storedFileNames, hist, i # sched, w)
          else Promise_all env sched (resume env i (tasks, storedFileNames, hist, w)))"

definition multipleUpload_all :: "env \<Rightarrow> UploadProfile list \<Rightarrow> nat list \<Rightarrow> world \<Rightarrow> run option" where
  "multipleUpload_all env filesProfiles sched w =
     (case Promise_all env sched (map (\<lambda>profile. Awaiting (promise profile)) filesProfiles,
             [], [], w) of
        None \<Rightarrow> None
      | Some (Some e, storedFileNames, hist, rest, w1) \<Rightarrow>
          Some \<lparr>returned = Inl e, history = hist, unconsumed = rest, final = w1\<rparr>
      | Some (None, storedFileNames, hist, rest, w1) \<Rightarrow>
          Some \<lparr>returned = Inr storedFileNames, history = hist, unconsumed = rest,
                final = w1\<rparr>)"

subsection \<open>Reading a history\<close>

text \<open>The values of the fulfilled results and the reasons of the rejected ones, in order.\<close>

definition fulfilled :: "settled list \<Rightarrow> FileArgs list" where
  "fulfilled rs = map the_value (filter is_Fulfilled rs)"

definition rejected :: "settled list \<Rightarrow> error list" where
  "rejected rs = map the_reason (filter is_Rejected rs)"

text \<open>The results of a history in the order of completion, and in the order of the handles.\<close>

definition by_completion :: "history \<Rightarrow> settled list" where
  "by_completion hist = map snd hist"

definition by_handle :: "history \<Rightarrow> settled list" where
  "by_handle hist = map snd (sort_key fst hist)"

subsection \<open>Targets and launch order of a batch\<close>









subsection \<open>Resumptions and invariants\<close>



fun need :: "task \<Rightarrow> nat" where
  "need (Awaiting (Inl e)) = 1"
| "need (Awaiting (Inr f)) = 2"
| "need (Storing p) = 1"
| "need (Finished r) = 0"


text \<open>
  What holds between two events of a run with \<open>Promise.allSettled\<close>: the history has
  exactly the filled slots, each once, and each result is the one of \<open>complete\<close> on the
  pending call of that handle.
\<close>

definition settle_inv :: "env \<Rightarrow> Pending list \<Rightarrow> world
    \<Rightarrow> settled option list \<times> history \<times> world \<Rightarrow> bool" where
  "settle_inv env ps w0 st =
     (case st of (slots, hist, w) \<Rightarrow>
        length slots = length ps \<and> distinct (map fst hist)
        \<and> (\<forall>i r. (i, r) \<in> set hist \<longleftrightarrow> i < length ps \<and> slots ! i = Some r)
        \<and> (\<forall>i r. (i, r) \<in> set hist \<longrightarrow> r = fst (complete env (ps ! i) w0))
        \<and> console w = console w0 \<and> issued w = issued w0)"


text \<open>
  What holds between two events of a run with \<open>Promise.all\<close>: no task is rejected, the
  history has exactly the finished tasks, each once, the array holds the fulfilled results
  of the history and the console its rejected ones, in its order.
\<close>

definition resume_inv :: "env \<Rightarrow> UploadProfile list \<Rightarrow> world
    \<Rightarrow> task list \<times> FileArgs list \<times> history \<times> world \<Rightarrow> bool" where
  "resume_inv env profiles w0 st =
     (case st of (tasks, names, hist, w) \<Rightarrow>
        length tasks = length profiles
        \<and> (\<forall>e. Finished (Some e) \<notin> set tasks)
        \<and> distinct (map fst hist)
        \<and> (\<forall>i. i \<in> fst ` set hist \<longleftrightarrow> i < length profiles \<and> tasks ! i = Finished None)
        \<and> names = fulfilled (map snd hist)
        \<and> console w = console w0 @ map failed_to_store (rejected (map snd hist))
        \<and> (\<forall>i<length profiles.
              (\<forall>x. tasks ! i = Awaiting x \<longrightarrow> x = promise (profiles ! i))
              \<and> (\<forall>p. tasks ! i = Storing p \<longrightarrow>
                    (\<exists>f k. promise (profiles ! i) = Inr f
                       \<and> p = fst (launch env \<lparr>upload_file = f\<rparr> (w0\<lparr>issued := k\<rparr>)))))
        \<and> (\<forall>i r. (i, r) \<in> set hist \<longrightarrow>
              (case promise (profiles ! i) of
                 Inl e \<Rightarrow> r = Rejected e
               | Inr f \<Rightarrow> \<exists>k. r = fst (storeUpload env \<lparr>upload_file = f\<rparr> (w0\<lparr>issued := k\<rparr>)))))"










section \<open>The uploads query\<close>

text \<open>
  \<open>readdir\<close> of \<open>node:fs/promises\<close>: the names of the entries of the directory, in the
  order of the directory, or the error of the storage layer.
\<close>

definition readdir :: "env \<Rightarrow> directory \<Rightarrow> error + string list" where
  "readdir env d = (case readdir_fault env of Some e \<Rightarrow> Inl e | None \<Rightarrow> Inr (map fst d))"

definition uploads :: "env \<Rightarrow> world \<Rightarrow> error + string list" where
  "uploads env w = readdir env (disk w)"


section \<open>Concrete environments and uploads\<close>

definition plain_env :: env where
  "plain_env = \<lparr>generate = (\<lambda>k. ''id'' @ replicate k CHR ''x''), new_URL = (\<lambda>n. n),
     open_fault = (\<lambda>u. None), write_fault = (\<lambda>u k. None), unlink_fault = (\<lambda>u. None),
     readdir_fault = None\<rparr>"

definition react_png :: Upload where
  "react_png = \<lparr>upload_file = \<lparr>filename = ''react.png'', mimetype = ''image/png'', encoding = ''7bit'',
     createReadStream = \<lparr>chunks = [''ab'', ''c''], failure = None\<rparr>\<rparr>\<rparr>"

definition empty_world :: world where
  "empty_world = \<lparr>disk = [], issued = 0, console = []\<rparr>"

text \<open>The disk is full when the second chunk is written.\<close>

definition enospc_env :: env where
  "enospc_env = plain_env\<lparr>write_fault := (\<lambda>u k. if k = 1 then Some (Error ''ENOSPC'') else None)\<rparr>"

text \<open>The same, and the storage layer refuses to unlink.\<close>

definition stuck_env :: env where
  "stuck_env = enospc_env\<lparr>unlink_fault := (\<lambda>u. Some (Error ''EPERM''))\<rparr>"

text \<open>No write fails, and the storage layer refuses to unlink.\<close>

definition eperm_env :: env where
  "eperm_env = plain_env\<lparr>unlink_fault := (\<lambda>u. Some (Error ''EPERM''))\<rparr>"

text \<open>A generator that issues the same identifier twice.\<close>

definition same_id_env :: env where
  "same_id_env = plain_env\<lparr>generate := (\<lambda>k. ''id'')\<rparr>"

text \<open>The directory cannot be read.\<close>

definition unreadable_env :: env where
  "unreadable_env = plain_env\<lparr>readdir_fault := Some (Error ''EACCES'')\<rparr>"

text \<open>An upload whose stream fails after its first chunk.\<close>

definition aborted_png :: Upload where
  "aborted_png = \<lparr>upload_file = \<lparr>filename = ''react.png'', mimetype = ''image/png'',
     encoding = ''7bit'',
     createReadStream = \<lparr>chunks = [''ab''], failure = Some (Error ''aborted'')\<rparr>\<rparr>\<rparr>"

definition sql_png :: Upload where
  "sql_png = \<lparr>upload_file = \<lparr>filename = ''sql.png'', mimetype = ''image/png'', encoding = ''7bit'',
     createReadStream = \<lparr>chunks = [''s''], failure = None\<rparr>\<rparr>\<rparr>"

definition sql_png_stored :: FileArgs where
  "sql_png_stored = \<lparr>filename = ''idx-sql.png'', mimetype = ''image/png'', encoding = ''7bit''\<rparr>"

text \<open>The element of \<open>filesProfiles\<close> whose upload promise fulfils with the file of an upload.\<close>

definition profile_of :: "Upload \<Rightarrow> UploadProfile" where
  "profile_of upload = \<lparr>promise = Inr (upload_file upload)\<rparr>"

definition react_png_stored :: FileArgs where
  "react_png_stored = \<lparr>filename = ''id-react.png'', mimetype = ''image/png'', encoding = ''7bit''\<rparr>"

definition react_png_world :: world where
  "react_png_world = \<lparr>disk = [(''id-react.png'', ''abc'')], issued = 1, console = []\<rparr>"

text \<open>The results of the concrete runs below.\<close>

definition two_by_handle :: run where
  "two_by_handle = \<lparr>returned = Inr [react_png_stored, sql_png_stored],
     history = [(1, Fulfilled sql_png_stored), (0, Fulfilled react_png_stored)],
     unconsumed = [],
     final = \<lparr>disk = [(''idx-sql.png'', ''s''), (''id-react.png'', ''abc'')], issued = 2,
       console = []\<rparr>\<rparr>"

definition two_by_completion :: run where
  "two_by_completion = two_by_handle\<lparr>returned := Inr [sql_png_stored, react_png_stored]\<rparr>"

definition one_of_two :: run where
  "one_of_two = \<lparr>returned = Inr [react_png_stored],
     history = [(1, Rejected (Error ''aborted'')), (0, Fulfilled react_png_stored)],
     unconsumed = [],
     final = \<lparr>disk = [(''id-react.png'', ''abc'')], issued = 2,
       console = [''Failed to store upload: Error: aborted'']\<rparr>\<rparr>"

text \<open>Neither the open nor the unlink is allowed.\<close>

definition eacces_env :: env where
  "eacces_env = eperm_env\<lparr>open_fault := (\<lambda>u. Some (Error ''EACCES''))\<rparr>"






section \<open>Properties of the storage primitives\<close>






lemma pipe_origin:
  "pipe env u k cs fin d = (Some e, d') \<Longrightarrow>
     (\<exists>j. k \<le> j \<and> j < k + length cs \<and> write_fault env u j = Some e) \<or> fin = Some e"
proof (induction cs arbitrary: k d)
  case Nil
  then show ?case by simp
next
  case (Cons c cs)
  show ?case
  proof (cases "write_fault env u k")
    case None
    with Cons.prems have "pipe env u (Suc k) cs fin (write_chunk u c d) = (Some e, d')"
      by simp
    from Cons.IH [OF this] show ?thesis
      using Suc_leD by fastforce
  next
    case (Some e')
    with Cons.prems show ?thesis by auto
  qed
qed


lemma on_error_result:
  "on_error env u e d = (r, d') \<Longrightarrow> r = Some e"
  by (auto simp: on_error_def split: prod.splits)


lemma on_error_target:
  "on_error env u e d = (r, d') \<Longrightarrow> unlink_fault env u = None \<Longrightarrow> map_of d' u = None"
  by (auto simp: on_error_def unlink_def AList.delete_conv' split: prod.splits if_splits)


lemma write_promise_result:
  assumes "write_promise env u s d = (Some e, d')"
  shows "open_fault env u = Some e \<or> (\<exists>k<length (chunks s). write_fault env u k = Some e)
         \<or> failure s = Some e"
proof (cases "open_fault env u")
  case (Some e')
  with assms show ?thesis
    by (auto simp: write_promise_def createWriteStream_def dest: on_error_result)
next
  case None
  obtain r d2 where p: "pipe env u 0 (chunks s) (failure s) (AList.update u [] d) = (r, d2)"
    by (cases "pipe env u 0 (chunks s) (failure s) (AList.update u [] d)")
  with None assms have "r = Some e"
    by (cases r) (auto simp: write_promise_def createWriteStream_def dest: on_error_result)
  with p pipe_origin [of env u 0 "chunks s" "failure s" _ e d2] show ?thesis
    by auto
qed


lemma write_promise_unlinked:
  "write_promise env u s d = (Some e, d') \<Longrightarrow> unlink_fault env u = None \<Longrightarrow>
     map_of d' u = None"
  by (auto simp: write_promise_def createWriteStream_def
      split: option.splits prod.splits dest: on_error_target)

lemma pipe_finishes:
  "fst (pipe env u k cs fin d) = None \<longleftrightarrow>
     (\<forall>j<length cs. write_fault env u (k + j) = None) \<and> fin = None"
proof (induction cs arbitrary: k d)
  case Nil
  then show ?case by simp
next
  case (Cons c cs)
  show ?case
  proof (cases "write_fault env u k")
    case (Some e)
    then show ?thesis by auto
  next
    case None
    have "(\<forall>j<length (c # cs). write_fault env u (k + j) = None)
        \<longleftrightarrow> (\<forall>j<length cs. write_fault env u (Suc k + j) = None)"
      using None by (auto simp: less_Suc_eq_0_disj)
    with None Cons.IH [of "Suc k" "write_chunk u c d"] show ?thesis
      by simp
  qed
qed

lemma write_promise_finishes:
  "fst (write_promise env u s d) = None \<longleftrightarrow>
     open_fault env u = None \<and> (\<forall>k<length (chunks s). write_fault env u k = None)
     \<and> failure s = None"
proof (cases "open_fault env u")
  case (Some e)
  then show ?thesis
    by (simp add: write_promise_def createWriteStream_def on_error_def split: prod.splits)
next
  case None
  have "fst (write_promise env u s d) = None
      \<longleftrightarrow> fst (pipe env u 0 (chunks s) (failure s) (AList.update u [] d)) = None"
    using None
    by (auto simp: write_promise_def createWriteStream_def on_error_def
        split: prod.splits option.splits)
  then show ?thesis
    using None pipe_finishes [of env u 0 "chunks s" "failure s" "AList.update u [] d"]
    by simp
qed

section \<open>Properties of storeUpload\<close>

lemma launch_stored:
  "launch env upload w = (p, w1) \<Longrightarrow>
     stored p = \<lparr>filename = generate env (issued w) @ ''-'' @ filename (upload_file upload),
                 mimetype = mimetype (upload_file upload), encoding = encoding (upload_file upload)\<rparr>
     \<and> storedFileUrl p = target env upload w
     \<and> stream p = createReadStream (upload_file upload)
     \<and> w1 = w\<lparr>issued := Suc (issued w)\<rparr>"
  by (auto simp: launch_def shortId_generate_def target_def Let_def)

lemma complete_Fulfilled:
  "complete env p w = (Fulfilled v, w') \<Longrightarrow> v = stored p"
  by (auto simp: complete_def split: prod.splits option.splits)

lemma complete_frame:
  "complete env p w = (r, w') \<Longrightarrow> issued w' = issued w \<and> console w' = console w"
  by (auto simp: complete_def split: prod.splits option.splits)





lemma pipe_partial:
  "map_of d u = Some a \<Longrightarrow>
     \<exists>b. map_of (snd (pipe env u k cs fin d)) u = Some (a @ b) \<and> prefix b (concat cs)"
proof (induction cs arbitrary: k d a)
  case Nil
  then show ?case by simp
next
  case (Cons c cs)
  show ?case
  proof (cases "write_fault env u k")
    case (Some e)
    with Cons.prems show ?thesis by simp
  next
    case None
    have "map_of (write_chunk u c d) u = Some (a @ c)"
      using Cons.prems by (simp add: write_chunk_def content_def AList.update_conv')
    from Cons.IH [OF this, of "Suc k"] obtain b where
      "map_of (snd (pipe env u (Suc k) cs fin (write_chunk u c d))) u = Some ((a @ c) @ b)"
      "prefix b (concat cs)"
      by blast
    then show ?thesis
      using None by (intro exI [of _ "c @ b"]) simp
  qed
qed

lemma write_promise_refused:
  assumes "write_promise env u s d = (Some e, d')" and "unlink_fault env u \<noteq> None"
  shows "open_fault env u = None \<Longrightarrow>
           \<exists>b. map_of d' u = Some b \<and> prefix b (concat (chunks s))"
    and "open_fault env u \<noteq> None \<Longrightarrow> d' = d"
proof -
  show "d' = d" if "open_fault env u \<noteq> None"
    using assms that
    by (auto simp: write_promise_def createWriteStream_def on_error_def unlink_def
        split: option.splits)
  show "\<exists>b. map_of d' u = Some b \<and> prefix b (concat (chunks s))" if o: "open_fault env u = None"
  proof -
    let ?p = "pipe env u 0 (chunks s) (failure s) (AList.update u [] d)"
    have "d' = snd ?p"
      using assms o
      by (auto simp: write_promise_def createWriteStream_def on_error_def unlink_def
          split: option.splits prod.splits)
    moreover have "map_of (AList.update u [] d) u = Some []"
      by (simp add: AList.update_conv')
    from pipe_partial [OF this, of env 0 "chunks s" "failure s"]
    have "\<exists>b. map_of (snd ?p) u = Some b \<and> prefix b (concat (chunks s))"
      by simp
    ultimately show ?thesis by simp
  qed
qed

lemma storeUpload_Rejected_iff:
  "is_Rejected (fst (storeUpload env upload w)) \<longleftrightarrow>
     open_fault env (target env upload w) \<noteq> None
     \<or> (\<exists>k<length (chunks (createReadStream (upload_file upload))).
           write_fault env (target env upload w) k \<noteq> None)
     \<or> failure (createReadStream (upload_file upload)) \<noteq> None"
proof -
  obtain p w1 where l: "launch env upload w = (p, w1)"
    by (cases "launch env upload w")
  note p = launch_stored [OF l]
  have "is_Rejected (fst (storeUpload env upload w))
      \<longleftrightarrow> fst (write_promise env (storedFileUrl p) (stream p) (disk w1)) \<noteq> None"
    using l by (auto simp: storeUpload_def complete_def split: prod.splits option.splits)
  then show ?thesis
    using p write_promise_finishes [of env "storedFileUrl p" "stream p" "disk w1"]
    by auto
qed

lemmas run_defs = storeUpload_def launch_def shortId_generate_def complete_def
  write_promise_def createWriteStream_def write_chunk_def content_def on_error_def unlink_def
  AList.delete_eq plain_env_def enospc_env_def stuck_env_def eperm_env_def eacces_env_def same_id_env_def
  react_png_def aborted_png_def empty_world_def react_png_stored_def react_png_world_def
  target_def Let_def

lemma storeUpload_enospc:
  "storeUpload enospc_env react_png empty_world =
     (Rejected (Error ''ENOSPC''), \<lparr>disk = [], issued = 1, console = []\<rparr>)"
  by (simp add: run_defs)

lemma storeUpload_stuck:
  "storeUpload stuck_env react_png empty_world =
     (Rejected (Error ''ENOSPC''), \<lparr>disk = [(''id-react.png'', ''ab'')], issued = 1, console = []\<rparr>)"
  by (simp add: run_defs)


lemma storeUpload_eacces:
  "storeUpload eacces_env react_png empty_world =
     (Rejected (Error ''EACCES''), \<lparr>disk = [], issued = 1, console = []\<rparr>)"
  by (simp add: run_defs)



lemma storeUpload_react_png:
  "storeUpload plain_env react_png empty_world = (Fulfilled react_png_stored, react_png_world)"
  by (simp add: storeUpload_def launch_def shortId_generate_def complete_def write_promise_def
      createWriteStream_def write_chunk_def content_def plain_env_def react_png_def
      empty_world_def react_png_stored_def react_png_world_def Let_def)

text \<open>
  C3: a successful \<open>storeUpload\<close> returns as filename the identifier that this call
  obtained from \<open>shortId.generate\<close>, a hyphen and the filename of the upload, so the
  stored filename ends with the original one.
\<close>

theorem storeUpload_filename:
  assumes "storeUpload env upload w = (Fulfilled v, w')"
  shows "filename v = generate env (issued w) @ ''-'' @ filename (upload_file upload)
         \<and> suffix (filename (upload_file upload)) (filename v)
         \<and> issued w' = Suc (issued w)"
proof -
  obtain p w1 where l: "launch env upload w = (p, w1)"
    by (cases "launch env upload w")
  with assms have c: "complete env p w1 = (Fulfilled v, w')"
    by (simp add: storeUpload_def)
  have v: "v = stored p"
    using c by (rule complete_Fulfilled)
  have name: "filename v = generate env (issued w) @ ''-'' @ filename (upload_file upload)"
    using launch_stored [OF l] v by simp
  have "suffix (filename (upload_file upload)) (filename v)"
    unfolding name suffix_def by (rule exI [of _ "generate env (issued w) @ ''-''"]) simp
  moreover have "issued w' = Suc (issued w)"
    using complete_frame [OF c] launch_stored [OF l] by simp
  ultimately show ?thesis
    using name by simp
qed

theorem storeUpload_filename_witness:
  "storeUpload plain_env react_png empty_world = (Fulfilled react_png_stored, react_png_world)
   \<and> (filename react_png_stored
         = generate plain_env (issued empty_world) @ ''-'' @ filename (upload_file react_png)
      \<and> suffix (filename (upload_file react_png)) (filename react_png_stored)
      \<and> issued react_png_world = Suc (issued empty_world))"
  by (rule conjI [OF storeUpload_react_png storeUpload_filename [OF storeUpload_react_png]])

text \<open>
  C4: a successful \<open>storeUpload\<close> returns the mimetype and the encoding of the upload
  unchanged.
\<close>

theorem storeUpload_mimetype_encoding:
  assumes "storeUpload env upload w = (Fulfilled v, w')"
  shows "mimetype v = mimetype (upload_file upload) \<and> encoding v = encoding (upload_file upload)"
proof -
  obtain p w1 where l: "launch env upload w = (p, w1)"
    by (cases "launch env upload w")
  with assms have "complete env p w1 = (Fulfilled v, w')"
    by (simp add: storeUpload_def)
  then have "v = stored p"
    by (rule complete_Fulfilled)
  then show ?thesis
    using launch_stored [OF l] by simp
qed

theorem storeUpload_mimetype_encoding_witness:
  "storeUpload plain_env react_png empty_world = (Fulfilled react_png_stored, react_png_world)
   \<and> (mimetype react_png_stored = mimetype (upload_file react_png)
      \<and> encoding react_png_stored = encoding (upload_file react_png))"
  by (rule conjI [OF storeUpload_react_png
        storeUpload_mimetype_encoding [OF storeUpload_react_png]])

text \<open>
  C2, as amended: \<open>storeUpload\<close> rejects exactly when the open, one of the writes or the
  upload's stream fails. The error it rejects with is then the one of that failed open,
  write or stream, whatever \<open>unlink\<close> answered. When \<open>unlink\<close> is not refused, nothing
  is left at the target. When \<open>unlink\<close> is refused, the truncated file stays at the target
  if the target had been opened, holding the bytes written so far, and the directory is as
  it was if the open itself had failed.
\<close>

theorem storeUpload_rejected:
  "(is_Rejected (fst (storeUpload env upload w)) \<longleftrightarrow>
      open_fault env (target env upload w) \<noteq> None
      \<or> (\<exists>k<length (chunks (createReadStream (upload_file upload))).
            write_fault env (target env upload w) k \<noteq> None)
      \<or> failure (createReadStream (upload_file upload)) \<noteq> None)
   \<and> (\<forall>e w'. storeUpload env upload w = (Rejected e, w') \<longrightarrow>
        (open_fault env (target env upload w) = Some e
         \<or> (\<exists>k<length (chunks (createReadStream (upload_file upload))).
               write_fault env (target env upload w) k = Some e)
         \<or> failure (createReadStream (upload_file upload)) = Some e)
        \<and> (unlink_fault env (target env upload w) = None
             \<longrightarrow> map_of (disk w') (target env upload w) = None)
        \<and> (unlink_fault env (target env upload w) \<noteq> None
             \<longrightarrow> open_fault env (target env upload w) = None
             \<longrightarrow> (\<exists>b. map_of (disk w') (target env upload w) = Some b
                    \<and> prefix b (concat (chunks (createReadStream (upload_file upload))))))
        \<and> (unlink_fault env (target env upload w) \<noteq> None
             \<longrightarrow> open_fault env (target env upload w) \<noteq> None
             \<longrightarrow> disk w' = disk w))"
proof (intro conjI allI impI)
  show "is_Rejected (fst (storeUpload env upload w)) \<longleftrightarrow>
      open_fault env (target env upload w) \<noteq> None
      \<or> (\<exists>k<length (chunks (createReadStream (upload_file upload))).
            write_fault env (target env upload w) k \<noteq> None)
      \<or> failure (createReadStream (upload_file upload)) \<noteq> None"
    by (rule storeUpload_Rejected_iff)
next
  fix e w' assume r: "storeUpload env upload w = (Rejected e, w')"
  obtain p w1 where l: "launch env upload w = (p, w1)"
    by (cases "launch env upload w")
  note p = launch_stored [OF l]
  from r l have c: "complete env p w1 = (Rejected e, w')"
    by (simp add: storeUpload_def)
  obtain d where wp: "write_promise env (storedFileUrl p) (stream p) (disk w1) = (Some e, d)"
    and d: "disk w' = d"
    using c by (auto simp: complete_def split: prod.splits option.splits)
  show "open_fault env (target env upload w) = Some e
      \<or> (\<exists>k<length (chunks (createReadStream (upload_file upload))).
            write_fault env (target env upload w) k = Some e)
      \<or> failure (createReadStream (upload_file upload)) = Some e"
    using write_promise_result [OF wp] p by auto
  show "map_of (disk w') (target env upload w) = None"
    if "unlink_fault env (target env upload w) = None"
    using write_promise_unlinked [OF wp] p d that by auto
  show "\<exists>b. map_of (disk w') (target env upload w) = Some b
      \<and> prefix b (concat (chunks (createReadStream (upload_file upload))))"
    if "unlink_fault env (target env upload w) \<noteq> None"
      and "open_fault env (target env upload w) = None"
    using write_promise_refused(1) [OF wp] p d that by auto
  show "disk w' = disk w"
    if "unlink_fault env (target env upload w) \<noteq> None"
      and "open_fault env (target env upload w) \<noteq> None"
    using write_promise_refused(2) [OF wp] p d that by auto
qed

theorem storeUpload_rejected_witness:
  "(is_Rejected (fst (storeUpload enospc_env react_png empty_world))
    \<and> storeUpload enospc_env react_png empty_world =
        (Rejected (Error ''ENOSPC''), \<lparr>disk = [], issued = 1, console = []\<rparr>)
    \<and> unlink_fault enospc_env (target enospc_env react_png empty_world) = None
    \<and> write_fault enospc_env (target enospc_env react_png empty_world) 1
        = Some (Error ''ENOSPC'')
    \<and> map_of (disk \<lparr>disk = [], issued = 1, console = []\<rparr>)
         (target enospc_env react_png empty_world) = None)
   \<and> (storeUpload stuck_env react_png empty_world =
        (Rejected (Error ''ENOSPC''),
         \<lparr>disk = [(''id-react.png'', ''ab'')], issued = 1, console = []\<rparr>)
    \<and> unlink_fault stuck_env (target stuck_env react_png empty_world) \<noteq> None
    \<and> open_fault stuck_env (target stuck_env react_png empty_world) = None
    \<and> map_of (disk \<lparr>disk = [(''id-react.png'', ''ab'')], issued = 1, console = []\<rparr>)
         (target stuck_env react_png empty_world) = Some ''ab''
    \<and> prefix ''ab'' (concat (chunks (createReadStream (upload_file react_png)))))
   \<and> (storeUpload eacces_env react_png empty_world =
        (Rejected (Error ''EACCES''), \<lparr>disk = [], issued = 1, console = []\<rparr>)
    \<and> unlink_fault eacces_env (target eacces_env react_png empty_world) \<noteq> None
    \<and> open_fault eacces_env (target eacces_env react_png empty_world) \<noteq> None
    \<and> disk \<lparr>disk = [], issued = 1, console = []\<rparr> = disk empty_world)"
proof -
  note a = storeUpload_rejected [of enospc_env react_png empty_world, THEN conjunct2,
      THEN spec, THEN spec, THEN mp, OF storeUpload_enospc]
  note b = storeUpload_rejected [of stuck_env react_png empty_world, THEN conjunct2,
      THEN spec, THEN spec, THEN mp, OF storeUpload_stuck]
  note c = storeUpload_rejected [of eacces_env react_png empty_world, THEN conjunct2,
      THEN spec, THEN spec, THEN mp, OF storeUpload_eacces]
  have 1: "is_Rejected (fst (storeUpload enospc_env react_png empty_world))
      \<and> storeUpload enospc_env react_png empty_world =
          (Rejected (Error ''ENOSPC''), \<lparr>disk = [], issued = 1, console = []\<rparr>)
      \<and> unlink_fault enospc_env (target enospc_env react_png empty_world) = None
      \<and> write_fault enospc_env (target enospc_env react_png empty_world) 1
          = Some (Error ''ENOSPC'')
      \<and> map_of (disk \<lparr>disk = [], issued = 1, console = []\<rparr>)
           (target enospc_env react_png empty_world) = None"
    using a storeUpload_enospc by (simp add: enospc_env_def plain_env_def)
  have 2: "storeUpload stuck_env react_png empty_world =
          (Rejected (Error ''ENOSPC''),
           \<lparr>disk = [(''id-react.png'', ''ab'')], issued = 1, console = []\<rparr>)
      \<and> unlink_fault stuck_env (target stuck_env react_png empty_world) \<noteq> None
      \<and> open_fault stuck_env (target stuck_env react_png empty_world) = None
      \<and> map_of (disk \<lparr>disk = [(''id-react.png'', ''ab'')], issued = 1, console = []\<rparr>)
           (target stuck_env react_png empty_world) = Some ''ab''
      \<and> prefix ''ab'' (concat (chunks (createReadStream (upload_file react_png))))"
    using b storeUpload_stuck
    by (simp add: stuck_env_def enospc_env_def plain_env_def target_def react_png_def
        empty_world_def)
  have 3: "storeUpload eacces_env react_png empty_world =
          (Rejected (Error ''EACCES''), \<lparr>disk = [], issued = 1, console = []\<rparr>)
      \<and> unlink_fault eacces_env (target eacces_env react_png empty_world) \<noteq> None
      \<and> open_fault eacces_env (target eacces_env react_png empty_world) \<noteq> None
      \<and> disk \<lparr>disk = [], issued = 1, console = []\<rparr> = disk empty_world"
    using c storeUpload_eacces
    by (simp add: eacces_env_def eperm_env_def plain_env_def empty_world_def)
  show ?thesis
    by (rule conjI [OF 1 conjI [OF 2 3]])
qed

text \<open>
  The claim C2 as it is written fails: the second write fails, \<open>unlink\<close> is refused, the
  call rejects with the error of the write and the truncated file is still at the target.
\<close>

theorem storeUpload_partial_file_remains:
  "fst (storeUpload stuck_env react_png empty_world) = Rejected (Error ''ENOSPC'')
   \<and> map_of (disk (snd (storeUpload stuck_env react_png empty_world)))
        (target stuck_env react_png empty_world) = Some ''ab''"
  by (simp add: storeUpload_stuck) (simp add: run_defs)



text \<open>
  C8: the \<open>uploads\<close> query returns the names of all the entries of the upload directory, as
  \<open>readdir\<close> lists them, and fails exactly when \<open>readdir\<close> fails, with that error.
\<close>

theorem uploads_lists_directory:
  "(\<forall>e. uploads env w = Inl e \<longleftrightarrow> readdir_fault env = Some e)
   \<and> (readdir_fault env = None \<longrightarrow>
        uploads env w = Inr (map fst (disk w))
        \<and> (\<forall>names. uploads env w = Inr names \<longrightarrow>
              set names = dom (map_of (disk w)) \<and> length names = length (disk w)))"
  by (auto simp: uploads_def readdir_def dom_map_of_conv_image_fst split: option.splits)

theorem uploads_lists_directory_witness:
  "readdir_fault plain_env = None
   \<and> uploads plain_env react_png_world = Inr [''id-react.png'']
   \<and> set [''id-react.png''] = dom (map_of (disk react_png_world))
   \<and> readdir_fault unreadable_env = Some (Error ''EACCES'')
   \<and> uploads unreadable_env react_png_world = Inl (Error ''EACCES'')"
  using uploads_lists_directory [of plain_env react_png_world]
    uploads_lists_directory [of unreadable_env react_png_world]
  by (simp add: plain_env_def unreadable_env_def react_png_world_def)

section \<open>Properties of multipleUpload\<close>

subsection \<open>Reading results\<close>

lemma those_Some: "those xs = Some ys \<Longrightarrow> xs = map Some ys"
  by (induction xs arbitrary: ys) (auto split: option.splits)

lemma those_filled: "None \<notin> set xs \<Longrightarrow> \<exists>ys. those xs = Some ys"
proof (induction xs)
  case Nil
  then show ?case by simp
next
  case (Cons x xs)
  then obtain y ys where "x = Some y" "those xs = Some ys"
    by (cases x) auto
  then show ?case by simp
qed

lemma collect_eq:
  "collect rs names w =
     (names @ fulfilled rs, w\<lparr>console := console w @ map failed_to_store (rejected rs)\<rparr>)"
  by (induction rs names w rule: collect.induct)
     (simp_all add: fulfilled_def rejected_def console_error_def)




lemma pipe_result_any: "fst (pipe env u k cs fin d) = fst (pipe env u k cs fin d')"
  by (induction cs arbitrary: k d d') (auto split: option.splits)

lemma write_promise_result_any:
  "fst (write_promise env u s d) = fst (write_promise env u s d')"
proof (cases "open_fault env u")
  case (Some e)
  then show ?thesis
    by (simp add: write_promise_def createWriteStream_def on_error_def split: prod.splits)
next
  case None
  have "fst (pipe env u 0 (chunks s) (failure s) (AList.update u [] d))
      = fst (pipe env u 0 (chunks s) (failure s) (AList.update u [] d'))"
    by (rule pipe_result_any)
  with None show ?thesis
    by (auto simp: write_promise_def createWriteStream_def on_error_def
        split: prod.splits option.splits)
qed

lemma complete_result_any: "fst (complete env p w) = fst (complete env p w')"
  using write_promise_result_any [of env "storedFileUrl p" "stream p" "disk w" "disk w'"]
  by (auto simp: complete_def split: prod.splits option.splits)

lemma launch_pending_any:
  "issued w = issued w' \<Longrightarrow> fst (launch env upload w) = fst (launch env upload w')"
  by (simp add: launch_def shortId_generate_def Let_def)

lemma storeUpload_result:
  "issued w = k \<Longrightarrow> fst (storeUpload env upload (w0\<lparr>issued := k\<rparr>))
     = fst (complete env (fst (launch env upload w)) w')"
proof -
  assume k: "issued w = k"
  obtain p w1 where l: "launch env upload (w0\<lparr>issued := k\<rparr>) = (p, w1)"
    by (cases "launch env upload (w0\<lparr>issued := k\<rparr>)")
  have "fst (launch env upload w) = p"
    using launch_pending_any [of w "w0\<lparr>issued := k\<rparr>" env upload] k l by simp
  then show ?thesis
    using l complete_result_any [of env p w1 w'] by (simp add: storeUpload_def)
qed

lemma launch_all_props:
  "launch_all env files w = (ps, w1) \<Longrightarrow>
     length ps = length files \<and> disk w1 = disk w \<and> console w1 = console w
     \<and> issued w1 = issued w + length files
     \<and> (\<forall>i<length files. ps ! i = fst (launch env (files ! i) (w\<lparr>issued := issued w + i\<rparr>)))"
proof (induction files arbitrary: w ps w1)
  case Nil
  then show ?case by simp
next
  case (Cons upload rest)
  obtain p wa where l: "launch env upload w = (p, wa)"
    by (cases "launch env upload w")
  obtain ps' wb where la: "launch_all env rest wa = (ps', wb)"
    by (cases "launch_all env rest wa")
  from Cons.prems l la have ps: "ps = p # ps'" and w1: "w1 = wb"
    by simp_all
  note wa = launch_stored [OF l]
  note ih = Cons.IH [OF la]
  have nth: "ps ! i = fst (launch env ((upload # rest) ! i) (w\<lparr>issued := issued w + i\<rparr>))"
    if "i < length (upload # rest)" for i
  proof (cases i)
    case 0
    then show ?thesis using ps l launch_pending_any [of w "w\<lparr>issued := issued w\<rparr>" env upload]
      by simp
  next
    case (Suc j)
    with that have "j < length rest" by simp
    with ih have "ps' ! j = fst (launch env (rest ! j) (wa\<lparr>issued := issued wa + j\<rparr>))"
      by simp
    moreover have "fst (launch env (rest ! j) (wa\<lparr>issued := issued wa + j\<rparr>))
        = fst (launch env (rest ! j) (w\<lparr>issued := issued w + Suc j\<rparr>))"
      by (rule launch_pending_any) (simp add: wa)
    ultimately show ?thesis using Suc ps by simp
  qed
  show ?case
    using ih wa nth by (simp add: ps w1)
qed


lemma settle_inv_step:
  assumes "settle_inv env ps w0 st"
  shows "settle_inv env ps w0 (settle env ps i st)"
proof -
  obtain slots hist w where st: "st = (slots, hist, w)"
    by (cases st)
  show ?thesis
  proof (cases "i < length slots \<and> i < length ps \<and> slots ! i = None")
    case False
    then show ?thesis using assms by (auto simp: settle_def st)
  next
    case True
    obtain r w1 where c: "complete env (ps ! i) w = (r, w1)"
      by (cases "complete env (ps ! i) w")
    have s: "settle env ps i st = (slots[i := Some r], hist @ [(i, r)], w1)"
      using True c by (simp add: settle_def st)
    have r: "r = fst (complete env (ps ! i) w0)"
      using c complete_result_any [of env "ps ! i" w w0] by simp
    have fresh: "i \<notin> fst ` set hist"
      using assms True by (auto simp: settle_inv_def st)
    have mem: "((j, q) \<in> set (hist @ [(i, r)])) =
        (j < length ps \<and> slots[i := Some r] ! j = Some q)" for j q
      using assms True by (cases "j = i") (auto simp: settle_inv_def st)
    have orig: "q = fst (complete env (ps ! j) w0)" if "(j, q) \<in> set (hist @ [(i, r)])" for j q
      using that assms r by (auto simp: settle_inv_def st)
    have len: "length (slots[i := Some r]) = length ps"
      and dist: "distinct (map fst (hist @ [(i, r)]))"
      and rest: "console w1 = console w0" "issued w1 = issued w0"
      using assms fresh complete_frame [OF c] by (auto simp: settle_inv_def st)
    show ?thesis
      unfolding s settle_inv_def prod.case
      using len dist rest mem orig by blast
  qed
qed

lemma settle_history:
  "settle env ps i (slots, hist, w) = (slots', hist', w') \<Longrightarrow>
     fst ` set hist' \<subseteq> insert i (fst ` set hist)"
  by (auto simp: settle_def split: if_splits prod.splits)

lemma allSettled_inv:
  assumes "settle_inv env ps w0 (slots, hist, w)"
    and "allSettled env ps sched (slots, hist, w) = Some (results, hist', rest, w')"
  shows "settle_inv env ps w0 (map Some results, hist', w')
         \<and> (\<exists>consumed. sched = consumed @ rest
               \<and> fst ` set hist' \<subseteq> fst ` set hist \<union> set consumed)"
  using assms
proof (induction sched arbitrary: slots hist w)
  case Nil
  then show ?case
    by (auto split: option.splits dest: those_Some)
next
  case (Cons i sched)
  show ?case
  proof (cases "those slots")
    case (Some rs)
    with Cons.prems show ?thesis
      by (auto dest: those_Some)
  next
    case None
    obtain slots1 hist1 w1 where s: "settle env ps i (slots, hist, w) = (slots1, hist1, w1)"
      by (cases "settle env ps i (slots, hist, w)")
    have inv: "settle_inv env ps w0 (slots1, hist1, w1)"
      using settle_inv_step [OF Cons.prems(1), of i] s by simp
    have run: "allSettled env ps sched (slots1, hist1, w1) = Some (results, hist', rest, w')"
      using Cons.prems(2) None s by simp
    from Cons.IH [OF inv run] obtain consumed where
      i1: "settle_inv env ps w0 (map Some results, hist', w')"
      and c: "sched = consumed @ rest"
      and h: "fst ` set hist' \<subseteq> fst ` set hist1 \<union> set consumed"
      by blast
    have "i # sched = (i # consumed) @ rest"
      using c by simp
    moreover have "fst ` set hist' \<subseteq> fst ` set hist \<union> set (i # consumed)"
      using h settle_history [OF s] by auto
    ultimately show ?thesis
      using i1 by blast
  qed
qed

lemma allSettled_returns:
  assumes "length slots = length ps"
    and "\<forall>i<length ps. slots ! i = None \<longrightarrow> i \<in> set sched"
  shows "\<exists>res. allSettled env ps sched (slots, hist, w) = Some res"
  using assms
proof (induction sched arbitrary: slots hist w)
  case Nil
  then have "None \<notin> set slots"
    by (auto simp: in_set_conv_nth)
  from those_filled [OF this] show ?case
    by auto
next
  case (Cons i sched)
  show ?case
  proof (cases "those slots")
    case (Some rs)
    then show ?thesis by simp
  next
    case None
    obtain slots1 hist1 w1 where s: "settle env ps i (slots, hist, w) = (slots1, hist1, w1)"
      by (cases "settle env ps i (slots, hist, w)")
    have len: "length slots1 = length ps"
      using s Cons.prems(1) by (auto simp: settle_def split: if_splits prod.splits)
    have left: "\<forall>j<length ps. slots1 ! j = None \<longrightarrow> j \<in> set sched"
    proof (intro allI impI)
      fix j assume j: "j < length ps" and n: "slots1 ! j = None"
      show "j \<in> set sched"
      proof (cases "j = i")
        case True
        with s j n Cons.prems(1) show ?thesis
          by (auto simp: settle_def split: if_splits prod.splits)
      next
        case False
        with s n have "slots ! j = None"
          by (auto simp: settle_def split: if_splits prod.splits)
        with Cons.prems(2) j False show ?thesis by auto
      qed
    qed
    from Cons.IH [OF len left] show ?thesis
      using None s by simp
  qed
qed

lemma sorted_history:
  assumes "distinct (map fst h)"
    and "\<forall>i r. (i, r) \<in> set h \<longleftrightarrow> i < length rs \<and> rs ! i = r"
  shows "by_handle h = rs"
proof -
  let ?ys = "zip [0..<length rs] rs"
  have "(i, r) \<in> set ?ys \<longleftrightarrow> i < length rs \<and> rs ! i = r" for i r
  proof
    assume "(i, r) \<in> set ?ys"
    then obtain k where "k < length rs" "[0..<length rs] ! k = i" "rs ! k = r"
      by (auto simp: in_set_zip)
    then show "i < length rs \<and> rs ! i = r"
      by simp
  next
    assume a: "i < length rs \<and> rs ! i = r"
    then have "[0..<length rs] ! i = i"
      by simp
    with a show "(i, r) \<in> set ?ys"
      unfolding in_set_zip by (intro exI [of _ i]) simp
  qed
  then have set_ys: "set ?ys = set h"
    using assms(2) by auto
  have "inj_on fst (set h)"
    using assms(1) by (simp add: distinct_map)
  then have inj: "inj_on fst (set (sort_key fst h) \<union> set ?ys)"
    by (simp add: set_ys)
  have "mset (map fst (sort_key fst h)) = mset (map fst h)"
    by simp
  then have d: "distinct (map fst (sort_key fst h))"
    using assms(1) by (metis mset_eq_imp_distinct_iff)
  have "sort_key fst h = ?ys"
    by (rule map_sorted_distinct_set_unique [OF inj]) (simp_all add: d set_ys)
  then show ?thesis
    by (simp add: by_handle_def)
qed


lemma multipleUpload_allSettled_sound:
  assumes "multipleUpload_allSettled env files sched w = Some out"
  shows "returned out = Inr (fulfilled (by_handle (history out)))"
    and "console (final out)
         = console w @ map failed_to_store (rejected (by_handle (history out)))"
    and "distinct (map fst (history out))"
    and "fst ` set (history out) = {..<length files}"
    and "\<forall>(i, r) \<in> set (history out).
           r = fst (storeUpload env (files ! i) (w\<lparr>issued := issued w + i\<rparr>))"
    and "\<exists>consumed. sched = consumed @ unconsumed out \<and> {..<length files} \<subseteq> set consumed"
    and "issued (final out) = issued w + length files"
proof -
  obtain ps w1 where la: "launch_all env files w = (ps, w1)"
    by (cases "launch_all env files w")
  note l = launch_all_props [OF la]
  from assms la obtain results hist rest w2 where
    a: "allSettled env ps sched (replicate (length ps) None, [], w1) = Some (results, hist, rest, w2)"
    by (auto simp: multipleUpload_allSettled_def split: option.splits)
  have out: "out = \<lparr>returned = Inr (fulfilled results), history = hist, unconsumed = rest,
      final = w2\<lparr>console := console w2 @ map failed_to_store (rejected results)\<rparr>\<rparr>"
    using assms la a by (simp add: multipleUpload_allSettled_def collect_eq)
  have "settle_inv env ps w1 (replicate (length ps) None, [], w1)"
    by (simp add: settle_inv_def)
  from allSettled_inv [OF this a] obtain consumed where
    inv: "settle_inv env ps w1 (map Some results, hist, w2)"
    and c: "sched = consumed @ rest" and h: "fst ` set hist \<subseteq> set consumed"
    by auto
  have len: "length results = length files"
    and d: "distinct (map fst hist)"
    and mem: "\<forall>i r. (i, r) \<in> set hist \<longleftrightarrow> i < length results \<and> results ! i = r"
    and orig: "\<forall>i r. (i, r) \<in> set hist \<longrightarrow> r = fst (complete env (ps ! i) w1)"
    and w2: "console w2 = console w" "issued w2 = issued w + length files"
    using inv l by (auto simp: settle_inv_def)
  have bh: "by_handle hist = results"
    using d mem by (rule sorted_history)
  have keys: "fst ` set hist = {..<length files}"
    using mem len by force
  show "returned out = Inr (fulfilled (by_handle (history out)))"
    by (simp add: out bh)
  show "console (final out)
      = console w @ map failed_to_store (rejected (by_handle (history out)))"
    by (simp add: out bh w2)
  show "distinct (map fst (history out))"
    by (simp add: out d)
  show "fst ` set (history out) = {..<length files}"
    by (simp add: out keys)
  show "\<forall>(i, r) \<in> set (history out).
      r = fst (storeUpload env (files ! i) (w\<lparr>issued := issued w + i\<rparr>))"
  proof (clarify)
    fix i r assume ir: "(i, r) \<in> set (history out)"
    then have i: "i < length files" and r: "r = fst (complete env (ps ! i) w1)"
      using mem len orig by (auto simp: out)
    have "ps ! i = fst (launch env (files ! i) (w\<lparr>issued := issued w + i\<rparr>))"
      using l i by simp
    then show "r = fst (storeUpload env (files ! i) (w\<lparr>issued := issued w + i\<rparr>))"
      using storeUpload_result [of "w\<lparr>issued := issued w + i\<rparr>" "issued w + i" env "files ! i" w w1]
      by (simp add: r)
  qed
  show "\<exists>consumed. sched = consumed @ unconsumed out \<and> {..<length files} \<subseteq> set consumed"
    using c h keys by (auto simp: out)
  show "issued (final out) = issued w + length files"
    by (simp add: out w2)
qed

lemma multipleUpload_allSettled_returns:
  assumes "{..<length files} \<subseteq> set sched"
  shows "\<exists>out. multipleUpload_allSettled env files sched w = Some out"
proof -
  obtain ps w1 where la: "launch_all env files w = (ps, w1)"
    by (cases "launch_all env files w")
  have "length ps = length files"
    using launch_all_props [OF la] by simp
  with assms have "\<forall>i<length ps. replicate (length ps) None ! i = None \<longrightarrow> i \<in> set sched"
    by auto
  from allSettled_returns [OF _ this, of env "[]" w1]
  obtain res where "allSettled env ps sched (replicate (length ps) None, [], w1) = Some res"
    by auto
  then show ?thesis
    using la by (cases res) (auto simp: multipleUpload_allSettled_def split: prod.splits)
qed

subsection \<open>Runs with Promise.all\<close>

lemma rejection_None: "(\<forall>e. Finished (Some e) \<notin> set tasks) \<Longrightarrow> rejection tasks = None"
  by (induction tasks rule: rejection.induct) auto

lemma rejection_NoneD: "rejection tasks = None \<Longrightarrow> Finished (Some e) \<notin> set tasks"
  by (induction tasks rule: rejection.induct) auto

lemma fulfilled_snoc:
  "fulfilled (rs @ [Fulfilled v]) = fulfilled rs @ [v]"
  "fulfilled (rs @ [Rejected e]) = fulfilled rs"
  "rejected (rs @ [Fulfilled v]) = rejected rs"
  "rejected (rs @ [Rejected e]) = rejected rs @ [e]"
  by (simp_all add: fulfilled_def rejected_def)

lemma set_update_finished:
  "i < length tasks \<Longrightarrow> \<forall>e. Finished (Some e) \<notin> set tasks \<Longrightarrow>
     \<forall>e. Finished (Some e) \<notin> set (tasks[i := t]) \<or> t = Finished (Some e)"
  by (auto simp: set_conv_nth nth_list_update split: if_splits)

lemma resume_inv_step:
  assumes "resume_inv env profiles w0 st"
  shows "resume_inv env profiles w0 (resume env i st)"
proof -
  obtain tasks names hist w where st: "st = (tasks, names, hist, w)"
    by (cases st)
  note inv = assms [unfolded st resume_inv_def prod.case]
  show ?thesis
  proof (cases "i < length tasks")
    case False
    then show ?thesis using assms by (simp add: resume_def st)
  next
    case i: True
    then have ip: "i < length profiles"
      using inv by simp
    have nofin: "Finished (Some e) \<notin> set (tasks[i := t])" if "\<forall>e. t \<noteq> Finished (Some e)" for t e
      using set_update_finished [of i tasks t] i inv that by auto
    show ?thesis
    proof (cases "tasks ! i")
      case (Finished r)
      then show ?thesis using assms i by (simp add: resume_def st)
    next
      case (Awaiting x)
      then have x: "x = promise (profiles ! i)"
        using inv ip by simp
      have fresh: "i \<notin> fst ` set hist"
        using inv Awaiting by auto
      show ?thesis
      proof (cases x)
        case (Inl e)
        have s: "resume env i st = (tasks[i := Finished None], names, hist @ [(i, Rejected e)],
            console_error (failed_to_store e) w)"
          using i Awaiting Inl by (simp add: resume_def st)
        have px: "promise (profiles ! i) = Inl e"
          using x Inl by simp
        show ?thesis
          unfolding s resume_inv_def prod.case
          using inv i ip fresh nofin px
          by (auto simp: fulfilled_snoc console_error_def nth_list_update)
      next
        case (Inr f)
        obtain p w1 where l: "launch env \<lparr>upload_file = f\<rparr> w = (p, w1)"
          by (cases "launch env \<lparr>upload_file = f\<rparr> w")
        have s: "resume env i st = (tasks[i := Storing p], names, hist, w1)"
          using i Awaiting Inr l by (simp add: resume_def st)
        have p: "p = fst (launch env \<lparr>upload_file = f\<rparr> (w0\<lparr>issued := issued w\<rparr>))"
          using l launch_pending_any [of w "w0\<lparr>issued := issued w\<rparr>" env "\<lparr>upload_file = f\<rparr>"]
          by simp
        have w1: "console w1 = console w"
          using launch_stored [OF l] by simp
        have px: "promise (profiles ! i) = Inr f"
          using x Inr by simp
        show ?thesis
          unfolding s resume_inv_def prod.case
          using inv i ip fresh nofin px p w1
          by (auto simp: nth_list_update)
      qed
    next
      case (Storing p)
      then obtain f k where f: "promise (profiles ! i) = Inr f"
        and p: "p = fst (launch env \<lparr>upload_file = f\<rparr> (w0\<lparr>issued := k\<rparr>))"
        using inv ip by blast
      have fresh: "i \<notin> fst ` set hist"
        using inv Storing by auto
      obtain r w1 where c: "complete env p w = (r, w1)"
        by (cases "complete env p w")
      have "r = fst (storeUpload env \<lparr>upload_file = f\<rparr> (w0\<lparr>issued := k\<rparr>))"
        using storeUpload_result [of "w0\<lparr>issued := k\<rparr>" k env "\<lparr>upload_file = f\<rparr>" w0 w] c p
        by simp
      then have r: "\<exists>k. r = fst (storeUpload env \<lparr>upload_file = f\<rparr> (w0\<lparr>issued := k\<rparr>))"
        by blast
      note w1 = complete_frame [OF c]
      show ?thesis
      proof (cases r)
        case (Fulfilled v)
        have s: "resume env i st = (tasks[i := Finished None], names @ [v],
            hist @ [(i, Fulfilled v)], w1)"
          using i Storing c Fulfilled by (simp add: resume_def st)
        show ?thesis
          unfolding s resume_inv_def prod.case
          using inv i ip fresh nofin f r w1 Fulfilled
          by (auto simp: fulfilled_snoc nth_list_update)
      next
        case (Rejected e)
        have s: "resume env i st = (tasks[i := Finished None], names,
            hist @ [(i, Rejected e)], console_error (failed_to_store e) w1)"
          using i Storing c Rejected by (simp add: resume_def st)
        show ?thesis
          unfolding s resume_inv_def prod.case
          using inv i ip fresh nofin f r w1 Rejected
          by (auto simp: fulfilled_snoc console_error_def nth_list_update)
      qed
    qed
  qed
qed


lemma resume_history:
  "resume env i (tasks, names, hist, w) = (tasks', names', hist', w') \<Longrightarrow>
     fst ` set hist' \<subseteq> insert i (fst ` set hist)"
  by (auto simp: resume_def split: if_splits task.splits sum.splits prod.splits settled.splits)

lemma resume_need:
  assumes "resume env i (tasks, names, hist, w) = (tasks', names', hist', w')"
  shows "length tasks' = length tasks"
    and "j \<noteq> i \<Longrightarrow> tasks' ! j = tasks ! j"
    and "i < length tasks \<Longrightarrow>
           need (tasks ! i) = need (tasks' ! i) + (if need (tasks ! i) = 0 then 0 else 1)"
  using assms
  by (auto simp: resume_def split: if_splits task.splits sum.splits prod.splits settled.splits)

lemma all_fulfilled_need: "all_fulfilled tasks \<Longrightarrow> i < length tasks \<Longrightarrow> need (tasks ! i) = 0"
  by (simp add: all_fulfilled_def list_all_length)

lemma Promise_all_inv:
  assumes "resume_inv env profiles w0 (tasks, names, hist, w)"
    and "Promise_all env sched (tasks, names, hist, w) = Some (r, names', hist', rest, w')"
  shows "r = None
         \<and> (\<exists>tasks'. all_fulfilled tasks' \<and> resume_inv env profiles w0 (tasks', names', hist', w'))
         \<and> (\<exists>consumed. sched = consumed @ rest
               \<and> fst ` set hist' \<subseteq> fst ` set hist \<union> set consumed)"
  using assms
proof (induction sched arbitrary: tasks names hist w)
  case Nil
  have "rejection tasks = None"
    using Nil.prems(1) by (auto simp: resume_inv_def intro: rejection_None)
  with Nil.prems show ?case
    by (auto split: if_splits)
next
  case (Cons i sched)
  have rej: "rejection tasks = None"
    using Cons.prems(1) by (auto simp: resume_inv_def intro: rejection_None)
  show ?case
  proof (cases "all_fulfilled tasks")
    case True
    with Cons.prems rej show ?thesis
      by auto
  next
    case False
    obtain tasks1 names1 hist1 w1 where
      s: "resume env i (tasks, names, hist, w) = (tasks1, names1, hist1, w1)"
      by (cases "resume env i (tasks, names, hist, w)")
    have inv: "resume_inv env profiles w0 (tasks1, names1, hist1, w1)"
      using resume_inv_step [OF Cons.prems(1), of i] s by simp
    have run: "Promise_all env sched (tasks1, names1, hist1, w1)
        = Some (r, names', hist', rest, w')"
      using Cons.prems(2) rej False s by simp
    from Cons.IH [OF inv run] obtain consumed where
      r: "r = None"
      and t: "\<exists>tasks'. all_fulfilled tasks' \<and> resume_inv env profiles w0 (tasks', names', hist', w')"
      and c: "sched = consumed @ rest"
      and h: "fst ` set hist' \<subseteq> fst ` set hist1 \<union> set consumed"
      by blast
    have "i # sched = (i # consumed) @ rest"
      using c by simp
    moreover have "fst ` set hist' \<subseteq> fst ` set hist \<union> set (i # consumed)"
      using h resume_history [OF s] by auto
    ultimately show ?thesis
      using r t by blast
  qed
qed

lemma Promise_all_returns:
  assumes "\<forall>i<length tasks. need (tasks ! i) \<le> count_list sched i"
  shows "\<exists>res. Promise_all env sched (tasks, names, hist, w) = Some res"
  using assms
proof (induction sched arbitrary: tasks names hist w)
  case Nil
  show ?case
  proof (cases "rejection tasks")
    case (Some e)
    then show ?thesis by simp
  next
    case None
    have "tasks ! i = Finished None" if i: "i < length tasks" for i
    proof (cases "tasks ! i")
      case (Finished r)
      have "Finished r \<in> set tasks"
        using i Finished by (metis nth_mem)
      with rejection_NoneD [OF None] have "r = None"
        by (cases r) auto
      with Finished show ?thesis by simp
    next
      case (Awaiting x)
      with Nil i show ?thesis by (cases x) auto
    next
      case (Storing p)
      with Nil i show ?thesis by auto
    qed
    then have "all_fulfilled tasks"
      by (simp add: all_fulfilled_def list_all_length)
    with None show ?thesis by simp
  qed
next
  case (Cons i sched)
  show ?case
  proof (cases "rejection tasks = None \<and> \<not> all_fulfilled tasks")
    case False
    then show ?thesis
      by (cases "rejection tasks") auto
  next
    case True
    obtain tasks1 names1 hist1 w1 where
      s: "resume env i (tasks, names, hist, w) = (tasks1, names1, hist1, w1)"
      by (cases "resume env i (tasks, names, hist, w)")
    note n = resume_need [OF s]
    have "\<forall>j<length tasks1. need (tasks1 ! j) \<le> count_list sched j"
    proof (intro allI impI)
      fix j assume "j < length tasks1"
      then have j: "j < length tasks"
        using n(1) by simp
      with Cons.prems have c: "need (tasks ! j) \<le> count_list (i # sched) j"
        by simp
      show "need (tasks1 ! j) \<le> count_list sched j"
      proof (cases "j = i")
        case True
        with n(3) j c show ?thesis
          by (auto split: if_splits)
      next
        case False
        with n(2) [of j] c show ?thesis
          by simp
      qed
    qed
    from Cons.IH [OF this] show ?thesis
      using True s by simp
  qed
qed

lemma Promise_all_needs:
  assumes "resume_inv env profiles w0 (tasks, names, hist, w)"
    and "Promise_all env sched (tasks, names, hist, w) = Some res"
  shows "\<forall>i<length tasks. need (tasks ! i) \<le> count_list sched i"
  using assms
proof (induction sched arbitrary: tasks names hist w)
  case Nil
  have "rejection tasks = None"
    using Nil.prems(1) by (auto simp: resume_inv_def intro: rejection_None)
  with Nil.prems(2) show ?case
    by (auto split: if_splits simp: all_fulfilled_need)
next
  case (Cons i sched)
  have rej: "rejection tasks = None"
    using Cons.prems(1) by (auto simp: resume_inv_def intro: rejection_None)
  show ?case
  proof (cases "all_fulfilled tasks")
    case True
    then show ?thesis
      by (simp add: all_fulfilled_need)
  next
    case False
    obtain tasks1 names1 hist1 w1 where
      s: "resume env i (tasks, names, hist, w) = (tasks1, names1, hist1, w1)"
      by (cases "resume env i (tasks, names, hist, w)")
    note n = resume_need [OF s]
    have inv: "resume_inv env profiles w0 (tasks1, names1, hist1, w1)"
      using resume_inv_step [OF Cons.prems(1), of i] s by simp
    have run: "Promise_all env sched (tasks1, names1, hist1, w1) = Some res"
      using Cons.prems(2) rej False s by simp
    note ih = Cons.IH [OF inv run]
    show ?thesis
    proof (intro allI impI)
      fix j assume j: "j < length tasks"
      with ih n(1) have c: "need (tasks1 ! j) \<le> count_list sched j"
        by simp
      show "need (tasks ! j) \<le> count_list (i # sched) j"
      proof (cases "j = i")
        case True
        with n(3) j c show ?thesis
          by (auto split: if_splits)
      next
        case False
        with n(2) [of j] c show ?thesis
          by simp
      qed
    qed
  qed
qed

lemma multipleUpload_all_sound:
  assumes "multipleUpload_all env profiles sched w = Some out"
  shows "returned out = Inr (fulfilled (by_completion (history out)))"
    and "console (final out)
         = console w @ map failed_to_store (rejected (by_completion (history out)))"
    and "distinct (map fst (history out))"
    and "fst ` set (history out) = {..<length profiles}"
    and "\<forall>(i, r) \<in> set (history out).
           (case promise (profiles ! i) of
              Inl e \<Rightarrow> r = Rejected e
            | Inr f \<Rightarrow> \<exists>k. r = fst (storeUpload env \<lparr>upload_file = f\<rparr> (w\<lparr>issued := k\<rparr>)))"
    and "\<exists>consumed. sched = consumed @ unconsumed out \<and> {..<length profiles} \<subseteq> set consumed"
    and "\<forall>i<length profiles. need (Awaiting (promise (profiles ! i))) \<le> count_list sched i"
proof -
  let ?tasks = "map (\<lambda>profile. Awaiting (promise profile)) profiles"
  have inv0: "resume_inv env profiles w (?tasks, [], [], w)"
    by (auto simp: resume_inv_def fulfilled_def rejected_def)
  from assms obtain r names hist rest w1 where
    p: "Promise_all env sched (?tasks, [], [], w) = Some (r, names, hist, rest, w1)"
    by (auto simp: multipleUpload_all_def split: option.splits)
  from Promise_all_inv [OF inv0 p] obtain tasks' consumed where
    r: "r = None" and f: "all_fulfilled tasks'"
    and inv: "resume_inv env profiles w (tasks', names, hist, w1)"
    and c: "sched = consumed @ rest" and h: "fst ` set hist \<subseteq> set consumed"
    by auto
  have out: "out = \<lparr>returned = Inr names, history = hist, unconsumed = rest, final = w1\<rparr>"
    using assms p r by (simp add: multipleUpload_all_def)
  note i = inv [unfolded resume_inv_def prod.case]
  have keys: "fst ` set hist = {..<length profiles}"
  proof -
    have "tasks' ! j = Finished None" if "j < length profiles" for j
      using f i that by (simp add: all_fulfilled_def list_all_length)
    with i show ?thesis by auto
  qed
  show "returned out = Inr (fulfilled (by_completion (history out)))"
    using i by (simp add: out by_completion_def)
  show "console (final out)
      = console w @ map failed_to_store (rejected (by_completion (history out)))"
    using i by (simp add: out by_completion_def)
  show "distinct (map fst (history out))"
    using i by (simp add: out)
  show "fst ` set (history out) = {..<length profiles}"
    by (simp add: out keys)
  show "\<forall>(i, r) \<in> set (history out).
      (case promise (profiles ! i) of
         Inl e \<Rightarrow> r = Rejected e
       | Inr f \<Rightarrow> \<exists>k. r = fst (storeUpload env \<lparr>upload_file = f\<rparr> (w\<lparr>issued := k\<rparr>)))"
    using i by (auto simp: out)
  show "\<exists>consumed. sched = consumed @ unconsumed out \<and> {..<length profiles} \<subseteq> set consumed"
    using c h keys by (auto simp: out)
  show "\<forall>i<length profiles. need (Awaiting (promise (profiles ! i))) \<le> count_list sched i"
    using Promise_all_needs [OF inv0 p] by simp
qed

lemma multipleUpload_all_returns:
  assumes "\<forall>i<length profiles. need (Awaiting (promise (profiles ! i))) \<le> count_list sched i"
  shows "\<exists>out. multipleUpload_all env profiles sched w = Some out"
proof -
  let ?tasks = "map (\<lambda>profile. Awaiting (promise profile)) profiles"
  have "\<forall>i<length ?tasks. need (?tasks ! i) \<le> count_list sched i"
    using assms by simp
  from Promise_all_returns [OF this, of env "[]" "[]" w]
  obtain res where "Promise_all env sched (?tasks, [], [], w) = Some res"
    by auto
  then show ?thesis
    by (cases res) (auto simp: multipleUpload_all_def split: option.splits)
qed


lemma history_keys:
  "distinct (map fst h) \<Longrightarrow> fst ` set h = {..<n} \<Longrightarrow> mset (map fst h) = mset [0..<n]"
  by (subst set_eq_iff_mset_eq_distinct [symmetric]) (auto simp: atLeast0LessThan)


lemma set_by_handle: "set (by_handle h) = set (by_completion h)"
  by (simp add: by_handle_def by_completion_def)

lemmas batch_defs = multipleUpload_allSettled_def multipleUpload_all_def settle_def resume_def
  all_fulfilled_def collect_eq console_error_def failed_to_store_def fulfilled_def rejected_def
  by_handle_def by_completion_def profile_of_def sql_png_def sql_png_stored_def

subsection \<open>The stored files stay\<close>















subsection \<open>What a batch leaves alone\<close>








subsection \<open>Tasks started in the order of the handles\<close>








subsection \<open>Concrete runs\<close>

lemma run_allSettled_two:
  "multipleUpload_allSettled plain_env [react_png, sql_png] [1, 0] empty_world
     = Some two_by_handle"
  by (simp add: batch_defs run_defs two_by_handle_def)

lemma run_all_two:
  "multipleUpload_all plain_env [profile_of react_png, profile_of sql_png] [0, 1, 1, 0]
     empty_world = Some two_by_completion"
  by (simp add: batch_defs run_defs two_by_handle_def two_by_completion_def)

lemma run_allSettled_mixed:
  "multipleUpload_allSettled plain_env [react_png, aborted_png] [1, 0] empty_world
     = Some one_of_two"
  by (simp add: batch_defs run_defs one_of_two_def)

lemma run_all_mixed:
  "multipleUpload_all plain_env [profile_of react_png, profile_of aborted_png] [0, 1, 1, 0]
     empty_world = Some one_of_two"
  by (simp add: batch_defs run_defs one_of_two_def)

lemma schedule_covers: "{..<length [react_png, aborted_png]} \<subseteq> set [1, 0 :: nat]"
  by auto



lemma schedule_needs_each:
  "list_all (\<lambda>i. need (Awaiting (promise ([profile_of react_png, profile_of aborted_png] ! i)))
       \<le> count_list [0, 1, 1, 0 :: nat] i)
     [0..<length [profile_of react_png, profile_of aborted_png]]"
  by (simp add: upt_rec profile_of_def)











subsection \<open>The claims on multipleUpload\<close>




text \<open>
  C5, as amended: the implementation with \<open>Promise.allSettled\<close> returns the fulfilled
  results in the order of the handles, whatever the order of completion; the one with
  \<open>Promise.all\<close> returns them in the order of completion.
\<close>

theorem multipleUpload_order:
  "(\<forall>out. multipleUpload_allSettled env files sched w = Some out \<longrightarrow>
      returned out = Inr (fulfilled (by_handle (history out))))
   \<and> (\<forall>out. multipleUpload_all env profiles sched w = Some out \<longrightarrow>
      returned out = Inr (fulfilled (by_completion (history out))))"
  using multipleUpload_allSettled_sound(1) multipleUpload_all_sound(1) by blast

theorem multipleUpload_order_witness:
  "multipleUpload_allSettled plain_env [react_png, sql_png] [1, 0] empty_world
     = Some two_by_handle
   \<and> returned two_by_handle = Inr (fulfilled (by_handle (history two_by_handle)))
   \<and> multipleUpload_all plain_env [profile_of react_png, profile_of sql_png] [0, 1, 1, 0]
       empty_world = Some two_by_completion
   \<and> returned two_by_completion = Inr (fulfilled (by_completion (history two_by_completion)))"
  using multipleUpload_order [where env = plain_env and files = "[react_png, sql_png]"
      and sched = "[1, 0]" and w = empty_world, THEN conjunct1, THEN spec, THEN mp,
      OF run_allSettled_two]
    multipleUpload_order [where env = plain_env
      and profiles = "[profile_of react_png, profile_of sql_png]"
      and sched = "[0, 1, 1, 0]" and w = empty_world, THEN conjunct2, THEN spec, THEN mp,
      OF run_all_two]
    run_allSettled_two run_all_two
  by blast

text \<open>
  The claim C5 as it is written fails for the implementation with \<open>Promise.allSettled\<close>:
  the second upload completes first, and the result is in the order of the handles.
\<close>

theorem multipleUpload_allSettled_keeps_input_order:
  "multipleUpload_allSettled plain_env [react_png, sql_png] [1, 0] empty_world
     = Some two_by_handle
   \<and> by_completion (history two_by_handle)
       = [Fulfilled sql_png_stored, Fulfilled react_png_stored]
   \<and> returned two_by_handle = Inr [react_png_stored, sql_png_stored]
   \<and> returned two_by_handle \<noteq> Inr (fulfilled (by_completion (history two_by_handle)))"
  using run_allSettled_two
  by (simp add: two_by_handle_def fulfilled_def by_completion_def sql_png_stored_def
      react_png_stored_def)

text \<open>
  C6: on the empty sequence both implementations return the empty sequence at once, with
  no event of the schedule consumed, and leave the world as it was: no identifier issued,
  no file, no line on the console.
\<close>

theorem multipleUpload_empty:
  "multipleUpload_allSettled env [] sched w =
     Some \<lparr>returned = Inr [], history = [], unconsumed = sched, final = w\<rparr>
   \<and> multipleUpload_all env [] sched w =
     Some \<lparr>returned = Inr [], history = [], unconsumed = sched, final = w\<rparr>"
  by (cases sched)
     (simp_all add: multipleUpload_allSettled_def multipleUpload_all_def all_fulfilled_def)

text \<open>
  C7: the result of \<open>multipleUpload\<close> is available exactly when the promise of every
  handle has settled, in whatever order and with whatever result, and then every handle
  has reached its final state within the events consumed and the resolver returns a list.
\<close>

theorem multipleUpload_joins_all:
  "(multipleUpload_allSettled env files sched w \<noteq> None \<longleftrightarrow> {..<length files} \<subseteq> set sched)
   \<and> (\<forall>out. multipleUpload_allSettled env files sched w = Some out \<longrightarrow>
        (\<exists>consumed. sched = consumed @ unconsumed out \<and> {..<length files} \<subseteq> set consumed)
        \<and> mset (map fst (history out)) = mset [0..<length files]
        \<and> (\<exists>names. returned out = Inr names))
   \<and> (multipleUpload_all env profiles sched w \<noteq> None \<longleftrightarrow>
        (\<forall>i<length profiles. need (Awaiting (promise (profiles ! i))) \<le> count_list sched i))
   \<and> (\<forall>out. multipleUpload_all env profiles sched w = Some out \<longrightarrow>
        (\<exists>consumed. sched = consumed @ unconsumed out \<and> {..<length profiles} \<subseteq> set consumed)
        \<and> mset (map fst (history out)) = mset [0..<length profiles]
        \<and> (\<exists>names. returned out = Inr names))"
proof (intro conjI allI impI)
  show "multipleUpload_allSettled env files sched w \<noteq> None \<longleftrightarrow> {..<length files} \<subseteq> set sched"
  proof
    assume "multipleUpload_allSettled env files sched w \<noteq> None"
    then obtain out where "multipleUpload_allSettled env files sched w = Some out"
      by blast
    from multipleUpload_allSettled_sound(6) [OF this] show "{..<length files} \<subseteq> set sched"
      by auto
  next
    assume "{..<length files} \<subseteq> set sched"
    from multipleUpload_allSettled_returns [OF this, of env w]
    show "multipleUpload_allSettled env files sched w \<noteq> None"
      by auto
  qed
next
  show "multipleUpload_all env profiles sched w \<noteq> None \<longleftrightarrow>
      (\<forall>i<length profiles. need (Awaiting (promise (profiles ! i))) \<le> count_list sched i)"
  proof
    assume "multipleUpload_all env profiles sched w \<noteq> None"
    then obtain out where "multipleUpload_all env profiles sched w = Some out"
      by blast
    from multipleUpload_all_sound(7) [OF this]
    show "\<forall>i<length profiles. need (Awaiting (promise (profiles ! i))) \<le> count_list sched i" .
  next
    assume "\<forall>i<length profiles. need (Awaiting (promise (profiles ! i))) \<le> count_list sched i"
    from multipleUpload_all_returns [OF this, of env w]
    show "multipleUpload_all env profiles sched w \<noteq> None"
      by auto
  qed
next
  fix out assume out: "multipleUpload_allSettled env files sched w = Some out"
  note s = multipleUpload_allSettled_sound [OF out]
  show "\<exists>consumed. sched = consumed @ unconsumed out \<and> {..<length files} \<subseteq> set consumed"
    by (rule s(6))
  show "mset (map fst (history out)) = mset [0..<length files]"
    by (rule history_keys [OF s(3,4)])
  show "\<exists>names. returned out = Inr names"
    using s(1) by blast
next
  fix out assume out: "multipleUpload_all env profiles sched w = Some out"
  note s = multipleUpload_all_sound [OF out]
  show "\<exists>consumed. sched = consumed @ unconsumed out \<and> {..<length profiles} \<subseteq> set consumed"
    by (rule s(6))
  show "mset (map fst (history out)) = mset [0..<length profiles]"
    by (rule history_keys [OF s(3,4)])
  show "\<exists>names. returned out = Inr names"
    using s(1) by blast
qed

theorem multipleUpload_joins_all_witness:
  "{..<length [react_png, aborted_png]} \<subseteq> set [1, 0 :: nat]
   \<and> multipleUpload_allSettled plain_env [react_png, aborted_png] [1, 0] empty_world
       = Some one_of_two
   \<and> (\<exists>consumed. [1, 0] = consumed @ unconsumed one_of_two
         \<and> {..<length [react_png, aborted_png]} \<subseteq> set consumed)
   \<and> multipleUpload_allSettled plain_env [react_png, aborted_png] [1] empty_world = None
   \<and> multipleUpload_all plain_env [profile_of react_png, profile_of aborted_png] [0, 1, 1, 0]
       empty_world = Some one_of_two
   \<and> list_all (\<lambda>i. need (Awaiting (promise ([profile_of react_png, profile_of aborted_png] ! i)))
           \<le> count_list [0, 1, 1, 0 :: nat] i)
        [0..<length [profile_of react_png, profile_of aborted_png]]
   \<and> (\<exists>consumed. [0, 1, 1, 0] = consumed @ unconsumed one_of_two
         \<and> {..<length [profile_of react_png, profile_of aborted_png]} \<subseteq> set consumed)"
proof -
  note v1 = multipleUpload_joins_all [where env = plain_env
      and files = "[react_png, aborted_png]" and sched = "[1, 0]" and w = empty_world]
  note v1' = multipleUpload_joins_all [where env = plain_env
      and files = "[react_png, aborted_png]" and sched = "[1]" and w = empty_world,
      THEN conjunct1]
  note v2 = multipleUpload_joins_all [where env = plain_env
      and profiles = "[profile_of react_png, profile_of aborted_png]"
      and sched = "[0, 1, 1, 0]" and w = empty_world, THEN conjunct2, THEN conjunct2]
  have "\<not> {..<length [react_png, aborted_png]} \<subseteq> set [1 :: nat]"
    by auto
  with v1' have none: "multipleUpload_allSettled plain_env [react_png, aborted_png] [1]
      empty_world = None"
    by blast
  have some: "multipleUpload_all plain_env [profile_of react_png, profile_of aborted_png]
      [0, 1, 1, 0] empty_world \<noteq> None"
    using run_all_mixed by simp
  note c1 = v1 [THEN conjunct2, THEN conjunct1, THEN spec, THEN mp, OF run_allSettled_mixed,
      THEN conjunct1]
  note n2 = v2 [THEN conjunct1, THEN iffD1, OF some]
  note c2 = v2 [THEN conjunct2, THEN spec, THEN mp, OF run_all_mixed, THEN conjunct1]
  show ?thesis
    using n2
    by (intro conjI)
       (rule schedule_covers run_allSettled_mixed c1 none run_all_mixed schedule_needs_each c2)+
qed




subsection \<open>The claim on what the operations change\<close>



end
